theory Spec2Isabelle
  imports Complex_Main "HOL-Library.Word"
begin

section \<open>Numeric conventions\<close>

text \<open>
  The program computes with NumPy and Python floats. A finite IEEE double is a rational
  number, so finite float values are modelled by \<^typ>\<open>rat\<close> and the arithmetic on them
  is exact; the rounding error of the hardware operations is not modelled. Pixel values
  of a calibrated or processed image are unsigned 8-bit integers, \<^typ>\<open>8 word\<close>.
\<close>

type_synonym pixel = "8 word"

text \<open>
  A Python float: a finite value, an infinity or not-a-number. The text of the cutoff
  entry is turned into such a value by Python's \<open>float\<close>, and the index is one.
\<close>

datatype pyfloat = Fin rat | PInf | NInf | NaN

datatype py_error = ZeroDivisionError | ValueError | IndexError | OSError

text \<open>\<open>int(x)\<close> on a float, and \<open>astype\<close> to an integer type: truncation toward zero.\<close>

definition py_int :: "rat \<Rightarrow> int" where
  "py_int x = (if 0 \<le> x then \<lfloor>x\<rfloor> else \<lceil>x\<rceil>)"

text \<open>\<open>round(x)\<close> on a float: to the nearest integer, a tie to the even one.\<close>

definition py_round :: "rat \<Rightarrow> int" where
  "py_round x =
     (let f = \<lfloor>x\<rfloor>; d = x - of_int f
      in if d < 1/2 then f
         else if 1/2 < d then f + 1
         else if even f then f else f + 1)"

section \<open>Helper math functions\<close>

subsection \<open>\<open>calculate_otsu_threshold\<close>\<close>

text \<open>
  \<open>np.histogram(pixels, bins=256, range=(0, 256))\<close> on 8-bit data: bin \<open>i\<close> counts the
  pixels of value \<open>i\<close>.
\<close>

definition np_histogram256 :: "pixel list \<Rightarrow> nat list" where
  "np_histogram256 pixels = map (\<lambda>i. count_list (map unat pixels) i) [0..<256]"

text \<open>\<open>np.cumsum\<close>: the running sums of a list.\<close>

fun cumsum_from :: "rat \<Rightarrow> rat list \<Rightarrow> rat list" where
  "cumsum_from acc [] = []"
| "cumsum_from acc (x # xs) = (acc + x) # cumsum_from (acc + x) xs"

definition np_cumsum :: "rat list \<Rightarrow> rat list" where
  "np_cumsum xs = cumsum_from 0 xs"

text \<open>\<open>np.argmax\<close>: the index of the first occurrence of the maximum.\<close>

fun argmax_from :: "rat list \<Rightarrow> nat \<Rightarrow> nat \<Rightarrow> rat \<Rightarrow> nat" where
  "argmax_from [] i best_i best = best_i"
| "argmax_from (x # xs) i best_i best =
     (if best < x then argmax_from xs (Suc i) i x
      else argmax_from xs (Suc i) best_i best)"

definition np_argmax :: "rat list \<Rightarrow> nat" where
  "np_argmax xs = (case xs of [] \<Rightarrow> 0 | x # rest \<Rightarrow> argmax_from rest 1 0 x)"

text \<open>
  One entry of \<open>between_var\<close>: zero outside \<open>valid_mask\<close>, the inter-class variance
  \<open>w * (1 - w) * (mean_bg / w - (global_mean - mean_bg) / (1 - w)) ** 2\<close> inside.
\<close>

definition between_var_at :: "rat \<Rightarrow> rat \<Rightarrow> rat \<Rightarrow> rat" where
  "between_var_at global_mean w m =
     (if 0 < w \<and> w < 1
      then w * (1 - w) * (m / w - (global_mean - m) / (1 - w)) ^ 2
      else 0)"

definition calculate_otsu_threshold :: "pixel list \<Rightarrow> nat" where
  "calculate_otsu_threshold pixels =
     (if length pixels = 0 then 0
      else
        let hist = np_histogram256 pixels;
            hist_norm = map (\<lambda>h. rat_of_nat h / rat_of_nat (length pixels)) hist;
            weight_bg = np_cumsum hist_norm;
            mean_bg = np_cumsum (map2 (\<lambda>h i. h * rat_of_nat i) hist_norm [0..<256]);
            global_mean = last mean_bg;
            valid_mask = map (\<lambda>w. 0 < w \<and> w < 1) weight_bg;
            between_var =
              (if list_ex (\<lambda>b. b) valid_mask
               then map2 (between_var_at global_mean) weight_bg mean_bg
               else replicate 256 0)
        in np_argmax between_var)"


subsection \<open>Images\<close>

text \<open>
  A PIL image of mode \<open>L\<close>: its size \<open>(width, height)\<close> and its pixels. \<open>px\<close> is read
  only inside the size.
\<close>

record image =
  img_size :: "int \<times> int"
  px :: "int \<times> int \<Rightarrow> pixel"

text \<open>\<open>np.array(img)\<close>, flattened: the pixels row by row.\<close>

definition image_pixels :: "image \<Rightarrow> pixel list" where
  "image_pixels img =
     concat (map (\<lambda>y. map (\<lambda>x. px img (x, y)) [0..fst (img_size img) - 1])
                 [0..snd (img_size img) - 1])"

text \<open>
  \<open>Image.crop(box)\<close>: PIL refuses a box whose right edge is left of its left edge (or
  lower above upper), rounds the four coordinates with \<open>round\<close>, and fills what lies
  outside the source image with zero.
\<close>

definition pil_crop :: "image \<Rightarrow> rat \<times> rat \<times> rat \<times> rat \<Rightarrow> py_error + image" where
  "pil_crop img box =
     (case box of (left, upper, right, lower) \<Rightarrow>
        if right < left then Inl ValueError
        else if lower < upper then Inl ValueError
        else
          let x0 = py_round left; y0 = py_round upper;
              x1 = py_round right; y1 = py_round lower
          in Inr \<lparr> img_size = (x1 - x0, y1 - y0),
                    px = (\<lambda>(x, y).
                       if 0 \<le> x + x0 \<and> x + x0 < fst (img_size img) \<and>
                          0 \<le> y + y0 \<and> y + y0 < snd (img_size img)
                       then px img (x + x0, y + y0) else 0) \<rparr>)"

text \<open>
  The library functions the program calls and this development does not define: the PIL
  filters and the bilinear resize, the polygon rasterizer of \<open>ImageDraw\<close>, Python's
  \<open>float\<close> on a string (\<open>None\<close> when it raises \<open>ValueError\<close>), the \<open>.6f\<close> format, and
  \<open>Image.open(path).convert("I")\<close> (\<open>None\<close> when it raises), which gives the size and the
  32-bit integer pixels row by row.
\<close>

record library =
  GaussianBlur :: "rat \<Rightarrow> image \<Rightarrow> image"
  Contrast_enhance :: "rat \<Rightarrow> image \<Rightarrow> image"
  Brightness_enhance :: "rat \<Rightarrow> image \<Rightarrow> image"
  resize_bilinear :: "int \<times> int \<Rightarrow> image \<Rightarrow> image"
  draw_polygon :: "(rat \<times> rat) list \<Rightarrow> int \<times> int \<Rightarrow> int \<times> int \<Rightarrow> bool"
  py_float :: "string \<Rightarrow> pyfloat option"
  format_6f :: "pyfloat \<Rightarrow> string"
  open_convert_I :: "string \<Rightarrow> ((int \<times> int) \<times> int list) option"

subsection \<open>\<open>apply_filters_to_image\<close>\<close>

definition apply_filters_to_image :: "library \<Rightarrow> image \<Rightarrow> rat \<Rightarrow> rat \<Rightarrow> rat \<Rightarrow> image" where
  "apply_filters_to_image L pil_image contrast brightness noise =
     (let img = pil_image;
          img = (if 0 < noise then GaussianBlur L noise img else img);
          img = (if contrast \<noteq> 1 then Contrast_enhance L contrast img else img);
          img = (if brightness \<noteq> 1 then Brightness_enhance L brightness img else img)
      in img)"

section \<open>Image calibration (\<open>load_image_from_disk\<close>, lines 241 to 246)\<close>

text \<open>
  \<open>np.percentile(arr, q)\<close> with the default linear interpolation: the value at position
  \<open>q / 100 * (n - 1)\<close> of the sorted data.
\<close>

definition np_percentile :: "int list \<Rightarrow> rat \<Rightarrow> rat" where
  "np_percentile arr q =
     (let srt = sort arr;
          n = length arr;
          pos = q / 100 * rat_of_nat (n - 1);
          lo = nat \<lfloor>pos\<rfloor>;
          hi = min (lo + 1) (n - 1);
          frac = pos - rat_of_int \<lfloor>pos\<rfloor>
      in rat_of_int (srt ! lo) + frac * (rat_of_int (srt ! hi) - rat_of_int (srt ! lo)))"

definition np_clip :: "rat \<Rightarrow> rat \<Rightarrow> rat \<Rightarrow> rat" where
  "np_clip x lo hi = min hi (max lo x)"

text \<open>The value before the cast, \<open>np.clip((v - p2) / range_val * 255, 0, 255)\<close>.\<close>

definition normalized :: "rat \<Rightarrow> rat \<Rightarrow> int \<Rightarrow> rat" where
  "normalized p2 range_val v = np_clip ((rat_of_int v - p2) / range_val * 255) 0 255"

definition range_val_of :: "rat \<Rightarrow> rat \<Rightarrow> rat" where
  "range_val_of p2 p98 = (if p98 - p2 \<noteq> 0 then p98 - p2 else 1)"

text \<open>\<open>arr_norm\<close>: the cast \<open>astype(np.uint8)\<close> truncates and keeps the low 8 bits.\<close>

definition calibrate :: "int list \<Rightarrow> pixel list" where
  "calibrate arr =
     (let p2 = np_percentile arr 2;
          p98 = np_percentile arr 98;
          range_val = range_val_of p2 p98
      in map (\<lambda>v. word_of_int (py_int (normalized p2 range_val v))) arr)"

text \<open>
  The calibration as the specification words it, with a rounding step between the
  clipping and the cast; for comparison with \<^const>\<open>calibrate\<close> only.
\<close>

definition calibrate_spec_rounding :: "int list \<Rightarrow> pixel list" where
  "calibrate_spec_rounding arr =
     (let p2 = np_percentile arr 2;
          p98 = np_percentile arr 98;
          range_val = range_val_of p2 p98
      in map (\<lambda>v. word_of_int (py_round (normalized p2 range_val v))) arr)"

text \<open>\<open>Image.fromarray(arr_norm)\<close> for data of the given size.\<close>

definition fromarray :: "int \<times> int \<Rightarrow> pixel list \<Rightarrow> image" where
  "fromarray sz data =
     \<lparr> img_size = sz,
       px = (\<lambda>(x, y). if 0 \<le> x \<and> x < fst sz \<and> 0 \<le> y \<and> y < snd sz
                        then data ! nat (y * fst sz + x) else 0) \<rparr>"

text \<open>The synthetic bimodal sample: 1000 values at 10, then 1000 at 200.\<close>

definition bimodal_sample :: "pixel list" where
  "bimodal_sample = replicate 1000 10 @ replicate 1000 200"

section \<open>Verification\<close>

subsection \<open>Otsu threshold\<close>

lemma count_list_replicate:
  "count_list (replicate n a) i = (if a = i then n else 0)"
  by (induction n) auto

lemma cumsum_from_length: "length (cumsum_from acc xs) = length xs"
  by (induction xs arbitrary: acc) simp_all

lemma cumsum_from_nth:
  "i < length xs \<Longrightarrow> cumsum_from acc xs ! i = acc + sum_list (take (Suc i) xs)"
proof (induction xs arbitrary: acc i)
  case Nil
  then show ?case by simp
next
  case (Cons x xs)
  show ?case
  proof (cases i)
    case 0
    then show ?thesis by simp
  next
    case (Suc j)
    with Cons.prems have "j < length xs" by simp
    from Cons.IH [OF this, of "acc + x"] Suc show ?thesis by (simp add: add.assoc)
  qed
qed

lemma np_cumsum_upt_nth:
  "i < n \<Longrightarrow> np_cumsum (map f [0..<n]) ! i = (\<Sum>j = 0..<Suc i. f j)"
proof -
  assume i: "i < n"
  have "take (Suc i) (map f [0..<n]) = map f [0..<Suc i]"
    using i by (simp add: take_map min_def del: upt_Suc)
  then show ?thesis
    using i by (simp add: np_cumsum_def cumsum_from_nth interv_sum_list_conv_sum_set_nat del: upt_Suc)
qed

lemma argmax_from_le: "\<forall>x \<in> set xs. x \<le> b \<Longrightarrow> argmax_from xs i bi b = bi"
  by (induction xs arbitrary: i) auto

lemma argmax_from_first:
  "k < length xs \<Longrightarrow> \<forall>j<k. xs ! j \<le> b \<Longrightarrow> b < xs ! k \<Longrightarrow>
   \<forall>j<length xs. xs ! j \<le> xs ! k \<Longrightarrow> argmax_from xs i bi b = i + k"
proof (induction xs arbitrary: i k)
  case Nil
  then show ?case by simp
next
  case (Cons x xs)
  show ?case
  proof (cases k)
    case 0
    with Cons.prems have bx: "b < x" by simp
    have le: "\<forall>y \<in> set xs. y \<le> x"
    proof
      fix y assume "y \<in> set xs"
      then obtain j where j: "j < length xs" "xs ! j = y" by (auto simp: in_set_conv_nth)
      have "(x # xs) ! Suc j \<le> (x # xs) ! k"
        using Cons.prems(4) [rule_format, of "Suc j"] j(1) by simp
      with j 0 show "y \<le> x" by simp
    qed
    from argmax_from_le [OF le] bx 0 show ?thesis by simp
  next
    case (Suc k')
    with Cons.prems have "x \<le> b" by auto
    moreover have "argmax_from xs (Suc i) bi b = Suc i + k'"
      using Cons.prems Suc by (intro Cons.IH) auto
    ultimately show ?thesis using Suc by simp
  qed
qed

lemma np_argmax_first:
  "0 < k \<Longrightarrow> k < length xs \<Longrightarrow> \<forall>j<k. xs ! j \<le> xs ! 0 \<Longrightarrow> xs ! 0 < xs ! k \<Longrightarrow>
   \<forall>j<length xs. xs ! j \<le> xs ! k \<Longrightarrow> np_argmax xs = k"
proof -
  assume k: "0 < k" "k < length xs" and below: "\<forall>j<k. xs ! j \<le> xs ! 0"
    and lt: "xs ! 0 < xs ! k" and mx: "\<forall>j<length xs. xs ! j \<le> xs ! k"
  from k obtain x rest where xs: "xs = x # rest" by (cases xs) auto
  from k obtain k' where k': "k = Suc k'" by (cases k) auto
  have "argmax_from rest 1 0 x = 1 + k'"
  proof (rule argmax_from_first)
    show "k' < length rest" using k xs k' by simp
    show "\<forall>j<k'. rest ! j \<le> x" using below xs k' by auto
    show "x < rest ! k'" using lt xs k' by simp
    show "\<forall>j<length rest. rest ! j \<le> rest ! k'" using mx xs k' by auto
  qed
  then show ?thesis by (simp add: np_argmax_def xs k')
qed

lemma map2_map_same: "map2 f (map g xs) xs = map (\<lambda>x. f (g x) x) xs"
  by (induction xs) simp_all

lemma length_bimodal: "length bimodal_sample = 2000"
  by (simp add: bimodal_sample_def)

lemma hist_bimodal:
  "np_histogram256 bimodal_sample =
     map (\<lambda>i. (if 10 = i then 1000 else 0) + (if 200 = i then 1000 else 0)) [0..<256]"
  by (simp add: np_histogram256_def bimodal_sample_def count_list_replicate del: upt_Suc)

lemma hist_norm_bimodal:
  "map (\<lambda>h. rat_of_nat h / rat_of_nat (length bimodal_sample)) (np_histogram256 bimodal_sample) =
     map (\<lambda>i. (if 10 = i then 1/2 else 0) + (if 200 = i then 1/2 else 0)) [0..<256]"
  unfolding hist_bimodal length_bimodal by simp

lemma weight_bimodal:
  "t < 256 \<Longrightarrow>
   np_cumsum (map (\<lambda>h. rat_of_nat h / rat_of_nat (length bimodal_sample)) (np_histogram256 bimodal_sample)) ! t
     = (if 10 \<le> t then 1/2 else 0) + (if 200 \<le> t then 1/2 else 0)"
  unfolding hist_norm_bimodal
  by (simp add: np_cumsum_upt_nth sum.distrib del: upt_Suc)

lemma mean_bimodal:
  "t < 256 \<Longrightarrow>
   np_cumsum (map2 (\<lambda>h i. h * rat_of_nat i)
      (map (\<lambda>h. rat_of_nat h / rat_of_nat (length bimodal_sample)) (np_histogram256 bimodal_sample)) [0..<256]) ! t
     = (if 10 \<le> t then 5 else 0) + (if 200 \<le> t then 100 else 0)"
  unfolding hist_norm_bimodal map2_map_same
  by (simp add: np_cumsum_upt_nth sum.distrib distrib_right if_distrib [of "\<lambda>x. x * _"] del: upt_Suc cong: if_cong)

lemma otsu_bimodal: "calculate_otsu_threshold bimodal_sample = 10"
proof -
  let ?hn = "map (\<lambda>h. rat_of_nat h / rat_of_nat (length bimodal_sample)) (np_histogram256 bimodal_sample)"
  let ?w = "np_cumsum ?hn"
  let ?m = "np_cumsum (map2 (\<lambda>h i. h * rat_of_nat i) ?hn [0..<256])"
  let ?bv = "map2 (between_var_at (last ?m)) ?w ?m"
  have lw: "length ?w = 256" and lm: "length ?m = 256"
    by (simp_all add: np_cumsum_def cumsum_from_length np_histogram256_def)
  have "?m \<noteq> []" using lm by auto
  then have "last ?m = ?m ! (length ?m - 1)" by (rule last_conv_nth)
  then have gm: "last ?m = 105"
    unfolding lm using mean_bimodal [of 255] by simp
  have bv: "?bv ! t = (if 10 \<le> t \<and> t < 200 then 9025 else 0)" if "t < 256" for t
    using that lw lm
    by (simp add: gm weight_bimodal mean_bimodal between_var_at_def power2_eq_square del: upt_Suc)
  have lbv: "length ?bv = 256" using lw lm by simp
  have valid: "list_ex (\<lambda>b. b) (map (\<lambda>w. 0 < w \<and> w < 1) ?w)"
  proof -
    have "?w ! 10 \<in> set ?w" using lw by (intro nth_mem) simp
    moreover have "?w ! 10 = 1/2" using weight_bimodal [of 10] by simp
    ultimately have "(1/2::rat) \<in> set ?w" by simp
    then have "\<exists>b \<in> set ?w. 0 < b \<and> b < 1" by (intro bexI [of _ "1/2"]) simp_all
    then show ?thesis by (simp add: list_ex_iff)
  qed
  have "np_argmax ?bv = 10"
  proof (rule np_argmax_first)
    show "(0::nat) < 10" by simp
    show "10 < length ?bv" using lbv by simp
    show "\<forall>j<10. ?bv ! j \<le> ?bv ! 0" using bv by simp
    show "?bv ! 0 < ?bv ! 10" using bv by simp
    show "\<forall>j<length ?bv. ?bv ! j \<le> ?bv ! 10" unfolding lbv using bv by simp
  qed
  then show ?thesis
    using valid by (simp add: calculate_otsu_threshold_def Let_def length_bimodal del: upt_Suc)
qed


text \<open>
  C5, as stated: on the bimodal sample the Otsu threshold \<open>t\<close> satisfies \<open>10 < t < 200\<close>.
  The code returns the first index of the maximal inter-class variance, which is 10, so the
  strict lower bound fails.
\<close>

theorem C5_otsu_bimodal_not_above_10:
  "\<not> (10 < calculate_otsu_threshold bimodal_sample \<and> calculate_otsu_threshold bimodal_sample < 200)"
  by (simp add: otsu_bimodal)

text \<open>
  C5, amended: on the bimodal sample the Otsu threshold \<open>t\<close> satisfies \<open>10 \<le> t < 200\<close>,
  so the predicate \<open>pixel > t\<close> still separates the two modes.
\<close>

theorem C5_otsu_bimodal_between:
  "10 \<le> calculate_otsu_threshold bimodal_sample \<and> calculate_otsu_threshold bimodal_sample < 200"
  by (simp add: otsu_bimodal)

end
